theory Spec2Isabelle
  imports Main "HOL-Library.Sublist" "HOL-Library.AList" "HOL-Library.Multiset"
begin

section \<open>Approval gateway: pending command approvals\<close>

text \<open>
  The module keeps one global table \<open>pendingCommands\<close> from tool-call ids to the entry
  registered by \<open>waitForCommandCompletion\<close>. An entry holds the approval request and the
  \<open>resolve\<close>/\<open>reject\<close> handles of the promise created at registration. Calling a handle
  is the only observable effect besides the table, so the state records every call in a
  log of deliveries.
\<close>

record CommandResult =
  stdout :: string
  stderr :: string
  exitCode :: int

record CommandApproval =
  command :: string
  cwd :: "string option"
  timeout :: "nat option"

datatype delivery = Resolved CommandResult | Rejected string

datatype js_error = Error string

record gateway =
  pendingCommands :: "string \<rightharpoonup> CommandApproval"
  deliveries :: "(string \<times> delivery) list"

definition waitForCommandCompletion ::
  "gateway \<Rightarrow> string \<Rightarrow> CommandApproval \<Rightarrow> js_error + gateway" where
  "waitForCommandCompletion g toolUseId approval =
     (if toolUseId = [] then Inl (Error ''toolUseId is required to track command approvals'')
      else if pendingCommands g toolUseId \<noteq> None
        then Inl (Error (''Command approval already pending for '' @ toolUseId))
      else Inr (g\<lparr>pendingCommands := (pendingCommands g)(toolUseId \<mapsto> approval)\<rparr>))"

definition resolvePendingCommand ::
  "gateway \<Rightarrow> string \<Rightarrow> CommandResult \<Rightarrow> bool \<times> gateway" where
  "resolvePendingCommand g toolUseId result =
     (case pendingCommands g toolUseId of
        None \<Rightarrow> (False, g)
      | Some pending \<Rightarrow>
          (True, g\<lparr>pendingCommands := (pendingCommands g)(toolUseId := None),
                   deliveries := deliveries g @ [(toolUseId, Resolved result)]\<rparr>))"

definition rejectPendingCommand ::
  "gateway \<Rightarrow> string \<Rightarrow> string \<Rightarrow> bool \<times> gateway" where
  "rejectPendingCommand g toolUseId err =
     (case pendingCommands g toolUseId of
        None \<Rightarrow> (False, g)
      | Some pending \<Rightarrow>
          (True, g\<lparr>pendingCommands := (pendingCommands g)(toolUseId := None),
                   deliveries := deliveries g @ [(toolUseId, Rejected err)]\<rparr>))"

definition getPendingCommand :: "gateway \<Rightarrow> string \<Rightarrow> CommandApproval option" where
  "getPendingCommand g toolUseId = pendingCommands g toolUseId"

definition emptyGateway :: gateway where
  "emptyGateway = \<lparr>pendingCommands = Map.empty, deliveries = []\<rparr>"

text \<open>The two ways of consuming a pending entry, as one step.\<close>

datatype settle = Resolve CommandResult | Reject string

fun deliver :: "gateway \<Rightarrow> string \<Rightarrow> settle \<Rightarrow> bool \<times> gateway" where
  "deliver g tid (Resolve r) = resolvePendingCommand g tid r"
| "deliver g tid (Reject e) = rejectPendingCommand g tid e"

fun delivered :: "settle \<Rightarrow> delivery" where
  "delivered (Resolve r) = Resolved r"
| "delivered (Reject e) = Rejected e"

section \<open>Messages and token estimation\<close>

text \<open>
  A message is a JavaScript object with a \<open>role\<close> and a \<open>content\<close> that is either a
  string (the seeded user query) or an array of typed blocks. The \<open>input\<close> of a tool-use
  block is an arbitrary JSON value. Strings are lists of code units; only their length
  and equality matter here.
\<close>

datatype json =
    JNull
  | JBool bool
  | JNum int
  | JStr string
  | JArr "json list"
  | JObj "(string \<times> json) list"

datatype block =
    Text string
  | ToolUse string string json
  | ToolResult string string "bool option"

datatype msg_role = User | Assistant

datatype msg_content = Str string | Blocks "block list"

record message =
  role :: msg_role
  content :: msg_content

fun role_string :: "msg_role \<Rightarrow> string" where
  "role_string User = ''user''"
| "role_string Assistant = ''assistant''"

text \<open>
  \<open>collectStrings\<close> flattens every string value reachable from a value: strings
  themselves, the elements of arrays and the property values (not the keys) of objects.
  Numbers, booleans, \<open>null\<close> and \<open>undefined\<close> contribute nothing.
\<close>

fun collectStrings_json :: "json \<Rightarrow> string list" where
  "collectStrings_json (JStr s) = [s]"
| "collectStrings_json (JArr vs) = concat (map collectStrings_json vs)"
| "collectStrings_json (JObj kvs) = concat (map (\<lambda>kv. collectStrings_json (snd kv)) kvs)"
| "collectStrings_json JNull = []"
| "collectStrings_json (JBool b) = []"
| "collectStrings_json (JNum n) = []"

fun collectStrings_block :: "block \<Rightarrow> string list" where
  "collectStrings_block (Text t) = [''text'', t]"
| "collectStrings_block (ToolUse tid nm inp) = [''tool_use'', tid, nm] @ collectStrings_json inp"
| "collectStrings_block (ToolResult tid c err) = [''tool_result'', tid, c]"

fun collectStrings_content :: "msg_content \<Rightarrow> string list" where
  "collectStrings_content (Str s) = [s]"
| "collectStrings_content (Blocks bs) = concat (map collectStrings_block bs)"

definition collectStrings :: "message \<Rightarrow> string list" where
  "collectStrings m = [role_string (role m)] @ collectStrings_content (content m)"

definition estimateTokensFromMessage :: "message \<Rightarrow> int" where
  "estimateTokensFromMessage m =
     (let overhead = 6;
          totalChars = foldl (\<lambda>sum piece. sum + int (length piece)) 0 (collectStrings m)
      in (totalChars + 3) div 4 + overhead)"

fun is_tool_result :: "block \<Rightarrow> bool" where
  "is_tool_result (ToolResult tid c err) = True"
| "is_tool_result b = False"

fun is_tool_use :: "block \<Rightarrow> bool" where
  "is_tool_use (ToolUse tid nm inp) = True"
| "is_tool_use b = False"

definition hasToolResults :: "message \<Rightarrow> bool" where
  "hasToolResults m =
     (case content m of Str s \<Rightarrow> False | Blocks bs \<Rightarrow> list_ex is_tool_result bs)"

definition hasToolUses :: "message \<Rightarrow> bool" where
  "hasToolUses m =
     (case content m of Str s \<Rightarrow> False | Blocks bs \<Rightarrow> list_ex is_tool_use bs)"

section \<open>Pruning the history\<close>

text \<open>
  \<open>pruneMessages\<close> works on an array of object references: it tests membership by
  identity (\<open>selected.includes\<close>) and its repair pass assigns to \<open>msg.content\<close> of the
  objects it was given. So the history is a list of references into a store of message
  objects, and the function returns the retained references together with the store
  after the repair pass. The archived one-line summaries do not influence the retained
  list and are not part of this development.
\<close>

type_synonym ref = nat
type_synonym store = "ref \<Rightarrow> message"

text \<open>\<open>xs.slice(start)\<close> of JavaScript, for an integral \<open>start\<close>.\<close>

definition js_slice_from :: "int \<Rightarrow> 'a list \<Rightarrow> 'a list" where
  "js_slice_from start xs =
     (if start < 0 then drop (nat (max (int (length xs) + start) 0)) xs
      else drop (nat start) xs)"

text \<open>
  The backward scan \<open>for (i = messages.length - 1; i >= 1; i--)\<close>, as a function of the
  loop variable and of the two accumulators \<open>selected\<close> and \<open>usedTokens\<close>.
\<close>

fun scan :: "store \<Rightarrow> ref list \<Rightarrow> int \<Rightarrow> int \<Rightarrow> nat \<Rightarrow> ref list \<Rightarrow> int \<Rightarrow> ref list" where
  "scan h messages maxMessages maxTokens i selected usedTokens =
     (if i < 1 then selected
      else
        let msg = messages ! i;
            tokens = estimateTokensFromMessage (h msg);
            needsPreviousMessage = (hasToolResults (h msg) \<and> i > 1)
        in if int (length selected) \<ge> maxMessages - 1 \<and> \<not> needsPreviousMessage
             then scan h messages maxMessages maxTokens (i - 1) selected usedTokens
           else if usedTokens + tokens > maxTokens \<and> \<not> needsPreviousMessage
             then scan h messages maxMessages maxTokens (i - 1) selected usedTokens
           else if needsPreviousMessage \<and> messages ! (i - 1) \<notin> set (selected @ [msg])
             then scan h messages maxMessages maxTokens (i - 2)
                    (selected @ [msg, messages ! (i - 1)])
                    (usedTokens + tokens + estimateTokensFromMessage (h (messages ! (i - 1))))
           else scan h messages maxMessages maxTokens (i - 1) (selected @ [msg])
                    (usedTokens + tokens))"

text \<open>
  The forward repair pass \<open>for (i = 1; i < pruned.length; i++)\<close>. Stripping assigns a
  new \<open>content\<close> to the object; \<open>pruned.splice(i, 1); i--\<close> removes the entry and
  looks at the same index again.
\<close>

definition strip_tool_results :: "message \<Rightarrow> message" where
  "strip_tool_results m =
     (case content m of
        Str s \<Rightarrow> m
      | Blocks bs \<Rightarrow> m\<lparr>content := Blocks (filter (\<lambda>b. \<not> is_tool_result b) bs)\<rparr>)"

definition content_empty :: "message \<Rightarrow> bool" where
  "content_empty m = (case content m of Str s \<Rightarrow> False | Blocks bs \<Rightarrow> bs = [])"

function repair :: "store \<Rightarrow> ref list \<Rightarrow> nat \<Rightarrow> ref list \<times> store" where
  "repair h pruned i =
     (if i < length pruned then
        let msg = pruned ! i; prevMsg = pruned ! (i - 1)
        in if hasToolResults (h msg) \<and> \<not> hasToolUses (h prevMsg) then
             let h' = h(msg := strip_tool_results (h msg))
             in if content_empty (h' msg)
                  then repair h' (take i pruned @ drop (Suc i) pruned) i
                  else repair h' pruned (Suc i)
           else repair h pruned (Suc i)
      else (pruned, h))"
  by pat_completeness auto
termination
  by (relation "measure (\<lambda>(h, pruned, i). length pruned - i)") auto

record prune_result =
  prunedMessages :: "ref list"
  storeAfter :: store

definition pruneMessages :: "store \<Rightarrow> ref list \<Rightarrow> int \<Rightarrow> int \<Rightarrow> prune_result" where
  "pruneMessages h messages maxMessages maxTokens =
     (if length messages = 0 then \<lparr>prunedMessages = messages, storeAfter = h\<rparr>
      else
        let firstMessage = messages ! 0;
            usedTokens = estimateTokensFromMessage (h firstMessage)
        in if usedTokens > maxTokens then \<lparr>prunedMessages = [firstMessage], storeAfter = h\<rparr>
           else
             let selected = scan h messages maxMessages maxTokens (length messages - 1) [] usedTokens;
                 pruned = firstMessage # rev selected;
                 pruned = (if int (length pruned) > maxMessages
                           then js_slice_from (- maxMessages) pruned else pruned);
                 (pruned, h') = repair h pruned 1
             in if int (length pruned) > maxMessages
                  then \<lparr>prunedMessages = js_slice_from (- maxMessages) pruned, storeAfter = h'\<rparr>
                  else \<lparr>prunedMessages = pruned, storeAfter = h'\<rparr>)"

text \<open>The retained messages as values: the references read in the store after pruning.\<close>

definition retained :: "prune_result \<Rightarrow> message list" where
  "retained r = map (storeAfter r) (prunedMessages r)"

declare scan.simps [simp del]
declare repair.simps [simp del]

text \<open>
  The adjacency the repair pass establishes: a retained message that holds tool-result
  blocks and has a predecessor in the retained list is preceded by a message that holds
  some tool-use block.
\<close>

fun adjacent_uses :: "message list \<Rightarrow> bool" where
  "adjacent_uses (p # m # ms) = ((hasToolResults m \<longrightarrow> hasToolUses p) \<and> adjacent_uses (m # ms))"
| "adjacent_uses ms = True"

text \<open>
  The adjacency of the specification: every tool-result block of a retained message
  names, by its \<open>tool_use_id\<close>, a tool-use block of the message retained immediately
  before it; a first retained message has no predecessor and so may hold none.
\<close>

definition toolUseIds :: "message \<Rightarrow> string list" where
  "toolUseIds m =
     (case content m of
        Str s \<Rightarrow> []
      | Blocks bs \<Rightarrow> concat (map (\<lambda>b. case b of ToolUse tid nm inp \<Rightarrow> [tid] | _ \<Rightarrow> []) bs))"

definition toolResultIds :: "message \<Rightarrow> string list" where
  "toolResultIds m =
     (case content m of
        Str s \<Rightarrow> []
      | Blocks bs \<Rightarrow> concat (map (\<lambda>b. case b of ToolResult tid c err \<Rightarrow> [tid] | _ \<Rightarrow> []) bs))"

fun spec_adjacency :: "message option \<Rightarrow> message list \<Rightarrow> bool" where
  "spec_adjacency prev [] = True"
| "spec_adjacency prev (m # ms) =
     (list_all (\<lambda>t. case prev of None \<Rightarrow> False | Some p \<Rightarrow> t \<in> set (toolUseIds p))
        (toolResultIds m)
      \<and> spec_adjacency (Some m) ms)"

text \<open>The invariant of the repair pass: the adjacency holds below the loop index.\<close>

definition ok_upto :: "store \<Rightarrow> ref list \<Rightarrow> nat \<Rightarrow> bool" where
  "ok_upto h pruned i = (\<forall>j. Suc j < i \<longrightarrow> Suc j < length pruned \<longrightarrow>
       hasToolResults (h (pruned ! Suc j)) \<longrightarrow> hasToolUses (h (pruned ! j)))"


subsection \<open>Concrete histories\<close>

text \<open>
  \<open>tool_rounds\<close> is the history of a run of tool rounds: the seeded user request, then
  for each round the assistant message with one tool-use block and the user message with
  the matching tool-result block.
\<close>

function digits :: "nat \<Rightarrow> string" where
  "digits n = (if n < 10 then [char_of (48 + n)] else digits (n div 10) @ [char_of (48 + n mod 10)])"
  by pat_completeness auto
termination
  by (relation "measure (\<lambda>n. n)") auto

declare digits.simps [simp del]

definition seed_message :: message where
  "seed_message = \<lparr>role = User, content = Str ''fix the build''\<rparr>"

definition use_message :: "string \<Rightarrow> message" where
  "use_message tid =
     \<lparr>role = Assistant,
      content = Blocks [ToolUse tid ''read_file'' (JObj [(''file_path'', JStr ''a.ts'')])]\<rparr>"

definition result_message :: "string \<Rightarrow> message" where
  "result_message tid = \<lparr>role = User, content = Blocks [ToolResult tid ''ok'' None]\<rparr>"

definition tool_rounds :: store where
  "tool_rounds r =
     (if r = 0 then seed_message
      else if odd r then use_message (''toolu_'' @ digits (Suc r div 2))
      else result_message (''toolu_'' @ digits (Suc r div 2)))"

section \<open>Open-file cache and tool tracking\<close>

text \<open>
  \<open>FileContext\<close> as declared in the source; \<open>fileContent\<close> is its optional field
  \<open>content\<close>, and \<open>previousVersions\<close> is optional too. The cache \<open>openFiles\<close> is a
  JavaScript \<open>Map\<close>, which iterates in insertion order: an association list with
  distinct keys, where \<open>set\<close> on a present key replaces the value in place and on an
  absent key appends (\<open>AList.update\<close>), and \<open>delete\<close> is \<open>AList.delete\<close>.
\<close>

record FileContext =
  path :: string
  fileContent :: "string option"
  previousVersions :: "string list option"
  lastRead :: int
  lastModified :: int

type_synonym cache = "(string \<times> FileContext) list"

text \<open>
  \<open>evictOldCacheEntries\<close>: the entries sorted by \<open>lastRead\<close> with the stable
  \<open>Array.prototype.sort\<close> (\<open>sort_key\<close> is a stable insertion sort), then the first
  \<open>cache.size - maxSize\<close> of them deleted one after the other.
\<close>

definition evictionOrder :: "cache \<Rightarrow> nat \<Rightarrow> (string \<times> FileContext) list" where
  "evictionOrder c maxSize =
     (let entries = sort_key (\<lambda>e. lastRead (snd e)) c;
          toRemove = length c - maxSize
      in map (\<lambda>i. entries ! i) [0..<toRemove])"

definition evictOldCacheEntries :: "cache \<Rightarrow> nat \<Rightarrow> cache" where
  "evictOldCacheEntries c maxSize =
     (if length c \<le> maxSize then c
      else fold (\<lambda>e c'. AList.delete (fst e) c') (evictionOrder c maxSize) c)"

text \<open>
  A tool call, by tool name with the input fields the tracking code reads, and what
  running the tool gave: a returned value or a thrown error.
\<close>

datatype tool_call =
    ReadFile string
  | WriteFile string string
  | ExecuteCommand string
  | ExecuteServerCommand string
  | OtherTool string

datatype tool_value = VString string | VCommand CommandResult | VOther

datatype tool_outcome = Returned tool_value | Threw string

record CommandEntry =
  ranCommand :: string
  commandOutput :: "string option"
  ranAt :: int

record tracking =
  openFiles :: cache
  recentChanges :: "(string \<times> int) list"
  recentReads :: "(string \<times> int) list"
  recentCommands :: "CommandEntry list"

text \<open>The write branch on a present entry: \<open>if (existing.content) { push; shift }\<close>.\<close>

definition saveVersion :: "FileContext \<Rightarrow> FileContext" where
  "saveVersion existing =
     (case fileContent existing of
        None \<Rightarrow> existing
      | Some c \<Rightarrow>
          if c = [] then existing
          else
            let versions = (case previousVersions existing of None \<Rightarrow> [] | Some vs \<Rightarrow> vs) @ [c]
            in existing\<lparr>previousVersions :=
                 Some (if length versions > 10 then tl versions else versions)\<rparr>)"

definition trackCommand :: "int \<Rightarrow> string \<Rightarrow> tool_value \<Rightarrow> tracking \<Rightarrow> tracking" where
  "trackCommand now cmd result t =
     (let out = (case result of
                   VString s \<Rightarrow> s
                 | VCommand r \<Rightarrow> stdout r @ (if stderr r \<noteq> [] then [CHR 0x0A] @ stderr r else [])
                 | VOther \<Rightarrow> [])
      in if cmd \<noteq> []
         then t\<lparr>recentCommands := recentCommands t @
                  [\<lparr>ranCommand = cmd,
                    commandOutput = (if out \<noteq> [] then Some (take 500 out) else None),
                    ranAt = now\<rparr>]\<rparr>
         else t)"

fun trackTool :: "int \<Rightarrow> tool_call \<Rightarrow> tool_outcome \<Rightarrow> tracking \<Rightarrow> tracking" where
  "trackTool now call (Threw err) t = t"
| "trackTool now (ReadFile filePath) (Returned result) t =
     (let t = t\<lparr>recentReads := recentReads t @ [(filePath, now)]\<rparr>
      in case result of
           VString s \<Rightarrow>
             let existing = map_of (openFiles t) filePath;
                 entry = \<lparr>path = filePath, fileContent = Some s,
                          previousVersions =
                            Some (case existing of
                                    None \<Rightarrow> []
                                  | Some e \<Rightarrow> (case previousVersions e of None \<Rightarrow> [] | Some vs \<Rightarrow> vs)),
                          lastRead = now, lastModified = now\<rparr>
             in t\<lparr>openFiles := evictOldCacheEntries (AList.update filePath entry (openFiles t)) 15\<rparr>
         | _ \<Rightarrow> t)"
| "trackTool now (WriteFile filePath newContent) (Returned result) t =
     (let t = t\<lparr>recentChanges := recentChanges t @ [(filePath, now)]\<rparr>;
          files = (case map_of (openFiles t) filePath of
                     Some existing \<Rightarrow>
                       AList.update filePath
                         ((saveVersion existing)\<lparr>fileContent := Some newContent,
                            lastModified := now, lastRead := now\<rparr>)
                         (openFiles t)
                   | None \<Rightarrow>
                       AList.update filePath
                         \<lparr>path = filePath, fileContent = Some newContent,
                          previousVersions = Some [], lastRead = now, lastModified = now\<rparr>
                         (openFiles t))
      in t\<lparr>openFiles := evictOldCacheEntries files 15\<rparr>)"
| "trackTool now (ExecuteCommand cmd) (Returned result) t = trackCommand now cmd result t"
| "trackTool now (ExecuteServerCommand cmd) (Returned result) t = trackCommand now cmd result t"
| "trackTool now (OtherTool nm) (Returned result) t = t"

section \<open>Checkpoint store and undo\<close>

text \<open>
  \<open>SqliteCheckpointSaver\<close>, as far as the channel values that undo reads go. \<open>put\<close>
  stores, under the thread id, the checkpoint with \<open>openFiles\<close> replaced by the list of
  its keys (\<open>serializeCheckpoint\<close>); \<open>getTuple\<close> takes the latest row of the thread and
  puts a new empty \<open>Map\<close> in the place of that list (\<open>deserializeCheckpoint\<close>). The
  table is a map from thread ids to the latest row. The graph saves a run under its
  session id (\<open>thread_id: sessionId\<close>).
\<close>

record stored_values =
  storedOpenFiles :: "string list"
  storedRecentChanges :: "(string \<times> int) list"

type_synonym checkpoint_rows = "string \<rightharpoonup> stored_values"

definition serializeCheckpoint :: "cache \<Rightarrow> (string \<times> int) list \<Rightarrow> stored_values" where
  "serializeCheckpoint files changes =
     \<lparr>storedOpenFiles = map fst files, storedRecentChanges = changes\<rparr>"

definition deserializeCheckpoint :: "stored_values \<Rightarrow> cache \<times> (string \<times> int) list" where
  "deserializeCheckpoint row = ([], storedRecentChanges row)"

definition put :: "checkpoint_rows \<Rightarrow> string \<Rightarrow> cache \<Rightarrow> (string \<times> int) list \<Rightarrow> checkpoint_rows" where
  "put rows threadId files changes = rows(threadId \<mapsto> serializeCheckpoint files changes)"

definition getTuple :: "checkpoint_rows \<Rightarrow> string \<Rightarrow> (cache \<times> (string \<times> int) list) option" where
  "getTuple rows threadId = map_option deserializeCheckpoint (rows threadId)"

text \<open>
  \<open>undoLastChange\<close> asks the global checkpoint store for the latest checkpoint of the
  thread \<open>default\<close>. The store is unset (\<open>NoStore\<close>), or its query throws, or it answers
  from its rows. \<open>writeFile p c\<close> is \<open>None\<close> when \<open>writeFileTool\<close> returns and the message
  of the error when it throws. The function returns its result object, the \<open>openFiles\<close>
  map it read as it left it, and the writes that reached the disk.
\<close>

datatype checkpoint_store =
    NoStore
  | BrokenStore string
  | Store checkpoint_rows

record undo_result =
  success :: bool
  report :: string
  undonePath :: "string option"

record undo_outcome =
  result :: undo_result
  filesAfter :: cache
  written :: "(string \<times> string) list"

definition failure :: "string \<Rightarrow> cache \<Rightarrow> undo_outcome" where
  "failure msg files =
     \<lparr>result = \<lparr>success = False, report = msg, undonePath = None\<rparr>,
      filesAfter = files, written = []\<rparr>"

definition undoTarget :: "string option \<Rightarrow> (string \<times> int) list \<Rightarrow> string option" where
  "undoTarget filePath changes =
     (case filePath of
        Some p \<Rightarrow> if p \<noteq> [] then Some p
                  else if changes \<noteq> [] then Some (fst (last changes)) else None
      | None \<Rightarrow> if changes \<noteq> [] then Some (fst (last changes)) else None)"

definition undoLastChange ::
  "checkpoint_store \<Rightarrow> string option \<Rightarrow> (string \<Rightarrow> string \<Rightarrow> string option) \<Rightarrow> undo_outcome" where
  "undoLastChange globalCheckpointStore filePath writeFile =
     (case globalCheckpointStore of
        NoStore \<Rightarrow> failure ''No checkpoint store available'' []
      | BrokenStore err \<Rightarrow> failure (''Undo failed: '' @ err) []
      | Store rows \<Rightarrow>
          (case getTuple rows ''default'' of
             None \<Rightarrow> failure ''No file history available'' []
           | Some (files, changes) \<Rightarrow>
               (case undoTarget filePath changes of
                  None \<Rightarrow> failure ''No recent changes to undo'' files
                | Some targetPath \<Rightarrow>
                    (case map_of files targetPath of
                       None \<Rightarrow> failure (''No previous version available for '' @ targetPath) files
                     | Some fileContext \<Rightarrow>
                         (case previousVersions fileContext of
                            None \<Rightarrow>
                              failure (''No previous version available for '' @ targetPath) files
                          | Some versions \<Rightarrow>
                              if versions = []
                              then failure (''No previous version available for '' @ targetPath) files
                              else
                                let previousContent = last versions;
                                    popped = fileContext\<lparr>previousVersions := Some (butlast versions)\<rparr>
                                in (case writeFile targetPath previousContent of
                                      Some err \<Rightarrow>
                                        failure (''Undo failed: '' @ err)
                                          (AList.update targetPath popped files)
                                    | None \<Rightarrow>
                                        \<lparr>result = \<lparr>success = True,
                                            report = ''Reverted '' @ targetPath
                                                       @ '' to previous version'',
                                            undonePath = Some targetPath\<rparr>,
                                         filesAfter = AList.update targetPath
                                            (popped\<lparr>fileContent := Some previousContent\<rparr>) files,
                                         written = [(targetPath, previousContent)]\<rparr>))))))"

text \<open>The undo stack of an entry, read as \<open>previousVersions || []\<close>.\<close>

definition versions :: "FileContext \<Rightarrow> string list" where
  "versions e = (case previousVersions e of None \<Rightarrow> [] | Some vs \<Rightarrow> vs)"

text \<open>The tool executions after which the tracking code stores an entry in the cache.\<close>

definition updates_cache :: "tool_call \<Rightarrow> tool_outcome \<Rightarrow> bool" where
  "updates_cache call outcome =
     (case (call, outcome) of
        (ReadFile p, Returned (VString s)) \<Rightarrow> True
      | (WriteFile p w, Returned v) \<Rightarrow> True
      | _ \<Rightarrow> False)"

section \<open>Agent state, the continue gate and the tool pass\<close>

text \<open>
  The fields of \<open>AgentState\<close> that the decision node, the tool-execution node and the
  context summary read or write; the four tracking fields are those that
  \<open>executeTools\<close> copies into its locals. An optional \<open>iterationCount\<close> is read as
  \<open>state.iterationCount || 0\<close>.
\<close>

record AgentState = tracking +
  toolUses :: "(string \<times> tool_call) list option"
  textBlocks :: "string list"
  workingSet :: "string list"
  historicalSummaries :: "(int \<times> string) list"
  iterationCount :: "nat option"

definition currentCount :: "AgentState \<Rightarrow> nat" where
  "currentCount state = (case iterationCount state of None \<Rightarrow> 0 | Some n \<Rightarrow> n)"

datatype route = ContinueRoute | EndRoute

definition is_space :: "char \<Rightarrow> bool" where
  "is_space c = (c \<in> set [CHR '' '', CHR 0x09, CHR 0x0A, CHR 0x0B, CHR 0x0C, CHR 0x0D])"

definition trim :: "string \<Rightarrow> string" where
  "trim s = rev (dropWhile is_space (rev (dropWhile is_space s)))"

definition toLowerCase :: "string \<Rightarrow> string" where
  "toLowerCase s =
     map (\<lambda>c. if (65::nat) \<le> of_char c \<and> of_char c \<le> (90::nat)
              then char_of (of_char c + (32::nat)) else c) s"

definition includes_str :: "string \<Rightarrow> string \<Rightarrow> bool" where
  "includes_str s sub = list_ex (prefix sub) (suffixes s)"

definition saysDone :: "string \<Rightarrow> bool" where
  "saysDone lastText =
     list_ex (includes_str lastText)
       [''completed'', ''finished'', ''done'', ''all set'', ''ready to use'',
        ''that'' @ [CHR 0x27] @ ''s all'', ''that is all'']"

text \<open>
  \<open>shouldContinue\<close>, the decision after the model call. \<open>answer\<close> is what the promise
  of \<open>waitForContinue\<close> resolves to; it is awaited only on the branch that reached the
  limit. The function returns the route, the state object as it left it and what it
  wrote to the output handler.
\<close>

definition shouldContinue :: "AgentState \<Rightarrow> bool \<Rightarrow> route \<times> AgentState \<times> string list" where
  "shouldContinue state answer =
     (if toolUses state = None \<or> toolUses state = Some [] then (EndRoute, state, [])
      else if currentCount state \<ge> 25 then
        (if \<not> answer then (EndRoute, state, [''ITERATION_LIMIT_REACHED''])
         else (ContinueRoute, state\<lparr>iterationCount := Some 0\<rparr>, [''ITERATION_LIMIT_REACHED'']))
      else if textBlocks state \<noteq> [] \<and> saysDone (toLowerCase (last (textBlocks state)))
        then (ContinueRoute, state, [])
      else (ContinueRoute, state, []))"

text \<open>
  \<open>executeTools\<close>, as far as the tracked context and the iteration counter go: the
  tool results it also returns are not part of this development. \<open>outcome_of k\<close> is what
  running the \<open>k\<close>-th tool call of the batch gave.
\<close>

definition executeTools :: "int \<Rightarrow> (nat \<Rightarrow> tool_outcome) \<Rightarrow> AgentState \<Rightarrow> AgentState" where
  "executeTools now outcome_of state =
     (case toolUses state of
        None \<Rightarrow> state
      | Some uses \<Rightarrow>
          if uses = [] then state
          else
            let locals = fold (\<lambda>k t. trackTool now (snd (uses ! k)) (outcome_of k) t)
                           [0..<length uses] (tracking.truncate state)
            in state\<lparr>openFiles := openFiles locals,
                     recentChanges := js_slice_from (- 20) (recentChanges locals),
                     recentReads := js_slice_from (- 20) (recentReads locals),
                     recentCommands := js_slice_from (- 10) (recentCommands locals),
                     iterationCount := Some (currentCount state + 1)\<rparr>)"

text \<open>
  The wiring of \<open>createAgentGraph\<close>. \<open>shouldContinue\<close> is the path function of the
  conditional edge that leaves \<open>callLLM\<close>: the graph calls it on the channel values and
  takes from it the route alone. The channel \<open>iterationCount\<close> changes only through the
  partial state a node returns, merged by the reducer \<open>y ?? x\<close>; so the node
  \<open>executeTools\<close> that the route \<open>continue\<close> leads to receives the channel values as
  they were when the edge was taken.
\<close>

definition iterationCountReducer :: "nat option \<Rightarrow> nat option \<Rightarrow> nat option" where
  "iterationCountReducer x y = (case y of None \<Rightarrow> x | Some v \<Rightarrow> Some v)"

definition toolPassAfterGate ::
  "int \<Rightarrow> (nat \<Rightarrow> tool_outcome) \<Rightarrow> AgentState \<Rightarrow> bool \<Rightarrow> AgentState option" where
  "toolPassAfterGate now outcome_of state answer =
     (case fst (shouldContinue state answer) of
        EndRoute \<Rightarrow> None
      | ContinueRoute \<Rightarrow> Some (executeTools now outcome_of state))"

text \<open>
  \<open>formatResults\<close> appends the user message that holds the tool-result batch, and the
  next \<open>callLLM\<close> resets the counter only when the count is at least 25 and the last
  message is a user message whose text (the string content, or the \<open>text\<close> of its first
  block) says to continue.
\<close>

definition toolResultsMessage :: "(string \<times> string \<times> bool option) list \<Rightarrow> message" where
  "toolResultsMessage toolResults =
     \<lparr>role = User,
      content = Blocks (map (\<lambda>(tid, c, err). ToolResult tid c err) toolResults)\<rparr>"

definition lastMessageText :: "message \<Rightarrow> string" where
  "lastMessageText m =
     (case content m of
        Str s \<Rightarrow> s
      | Blocks [] \<Rightarrow> []
      | Blocks (b # bs) \<Rightarrow> (case b of Text t \<Rightarrow> t | _ \<Rightarrow> []))"

definition resetCounter :: "nat option \<Rightarrow> message list \<Rightarrow> bool" where
  "resetCounter iterations messages =
     ((case iterations of None \<Rightarrow> 0 | Some n \<Rightarrow> n) \<ge> 25 \<and> messages \<noteq> []
      \<and> role (last messages) = User
      \<and> (let normalized = trim (toLowerCase (lastMessageText (last messages)))
         in includes_str normalized ''continue'' \<or> includes_str normalized ''yes''
            \<or> includes_str normalized ''keep going''))"

definition countAfterCallLLM :: "nat option \<Rightarrow> message list \<Rightarrow> nat option" where
  "countAfterCallLLM iterations messages =
     iterationCountReducer iterations
       (if resetCounter iterations messages then Some 0 else None)"

section \<open>Context summary\<close>

text \<open>
  \<open>extractArtifacts\<close> applies three regular expressions with \<open>String.prototype.match\<close>.
  The matcher belongs to the runtime: \<open>rx pat s\<close> is the first capture group of the first
  match of the pattern in \<open>s\<close>, if there is a match.
\<close>

datatype artifact_pattern = CompileFlag | CreatedMessage | BinaryPath

definition extractArtifacts ::
  "(artifact_pattern \<Rightarrow> string \<Rightarrow> string option) \<Rightarrow> string \<Rightarrow> string option \<Rightarrow> string list" where
  "extractArtifacts rx cmd output =
     (case output of
        None \<Rightarrow> []
      | Some out \<Rightarrow>
          if out = [] then []
          else (case rx CompileFlag cmd of Some a \<Rightarrow> [a] | None \<Rightarrow> [])
             @ (case rx CreatedMessage out of Some a \<Rightarrow> [a] | None \<Rightarrow> [])
             @ (case rx BinaryPath out of Some a \<Rightarrow> [a] | None \<Rightarrow> []))"

fun join :: "string \<Rightarrow> string list \<Rightarrow> string" where
  "join sep [] = []"
| "join sep [x] = x"
| "join sep (x # y # ys) = x @ sep @ join sep (y # ys)"

definition commandSummary ::
  "(artifact_pattern \<Rightarrow> string \<Rightarrow> string option) \<Rightarrow> CommandEntry \<Rightarrow> string" where
  "commandSummary rx cmd =
     (let artifacts = extractArtifacts rx (ranCommand cmd) (commandOutput cmd);
          summary = ''Ran: '' @ ranCommand cmd
      in if artifacts \<noteq> [] then summary @ '' (created: '' @ join '', '' artifacts @ '')''
         else summary)"

definition historySnippet :: "int \<Rightarrow> int \<times> string \<Rightarrow> string" where
  "historySnippet nowMs entry =
     (let elapsed = nowMs - fst entry;
          minutes = max 1 ((elapsed + 30000) div 60000)
      in digits (nat minutes) @ ''m ago: '' @ snd entry)"

definition getContextSummary ::
  "(artifact_pattern \<Rightarrow> string \<Rightarrow> string option) \<Rightarrow> int \<Rightarrow> AgentState \<Rightarrow> string" where
  "getContextSummary rx nowMs state =
     (let openFilesList = map fst (openFiles state);
          recentChangesLast = js_slice_from (- 5) (recentChanges state);
          recentReadsLast = js_slice_from (- 5) (recentReads state);
          recentCommandsLast = js_slice_from (- 3) (recentCommands state);
          historical = js_slice_from (- 5) (historicalSummaries state)
      in if openFilesList = [] \<and> recentChangesLast = [] \<and> recentCommandsLast = []
            \<and> historical = []
         then []
         else trim
           (''[Context] ''
            @ (if openFilesList \<noteq> []
               then ''Working with files: '' @ join '', '' openFilesList @ ''. '' else [])
            @ (if recentChangesLast \<noteq> []
               then ''Recent changes: '' @ join '', '' (map fst recentChangesLast) @ ''. '' else [])
            @ (if recentCommandsLast \<noteq> []
               then ''Recent commands: '' @ join ''; '' (map (commandSummary rx) recentCommandsLast)
                    @ ''. '' else [])
            @ (if workingSet state \<noteq> []
               then ''Focus: '' @ join '', '' (workingSet state) @ ''. '' else [])
            @ (if historical \<noteq> []
               then ''Earlier work: '' @ join '' | '' (map (historySnippet nowMs) historical)
                    @ ''. '' else [])))"

subsection \<open>Concrete states\<close>

definition sample_entry :: "nat \<Rightarrow> string \<times> FileContext" where
  "sample_entry i =
     (''src/f'' @ digits i @ ''.ts'',
      \<lparr>path = ''src/f'' @ digits i @ ''.ts'', fileContent = Some ''export {}'',
       previousVersions = Some [],
       lastRead = (if i = 7 then 1000 else 2000 + int i),
       lastModified = 900\<rparr>)"

definition sample_tracking :: tracking where
  "sample_tracking =
     \<lparr>openFiles = map sample_entry [1..<16], recentChanges = [], recentReads = [],
      recentCommands = []\<rparr>"

text \<open>
  Answers of the regular-expression matcher and of the disk, and states used below: a
  cache entry of an empty file, an entry whose undo stack is full, the tracked context
  after two writes of one file, a state whose only signal is its recent reads, and a state
  at the iteration limit with a pending tool call.
\<close>

definition no_regex :: "artifact_pattern \<Rightarrow> string \<Rightarrow> string option" where
  "no_regex pat s = None"

definition disk_ok :: "string \<Rightarrow> string \<Rightarrow> string option" where
  "disk_ok p c = None"

definition empty_file_tracking :: tracking where
  "empty_file_tracking =
     \<lparr>openFiles = [(''notes.md'', \<lparr>path = ''notes.md'', fileContent = Some [],
          previousVersions = Some [], lastRead = 1000, lastModified = 1000\<rparr>)],
      recentChanges = [], recentReads = [(''notes.md'', 1000)], recentCommands = []\<rparr>"

definition full_stack_tracking :: tracking where
  "full_stack_tracking =
     \<lparr>openFiles = [(''notes.md'', \<lparr>path = ''notes.md'', fileContent = Some ''v11'',
          previousVersions = Some (map (\<lambda>i. ''v'' @ digits i) [1..<11]),
          lastRead = 1000, lastModified = 1000\<rparr>)],
      recentChanges = [(''notes.md'', 1000)], recentReads = [], recentCommands = []\<rparr>"

definition twice_written :: tracking where
  "twice_written =
     trackTool 6000 (WriteFile ''notes.md'' ''second'') (Returned VOther)
       (trackTool 5000 (WriteFile ''notes.md'' ''first'') (Returned VOther)
          \<lparr>openFiles = [], recentChanges = [], recentReads = [], recentCommands = []\<rparr>)"

definition read_ok :: "nat \<Rightarrow> tool_outcome" where
  "read_ok k = Returned (VString ''export {}'')"

definition reads_only_state :: AgentState where
  "reads_only_state =
     \<lparr>openFiles = [], recentChanges = [],
      recentReads = [(''README.md'', 1000), (''docs/guide.md'', 2000)], recentCommands = [],
      toolUses = None, textBlocks = [], workingSet = [], historicalSummaries = [],
      iterationCount = None\<rparr>"

definition busy_state :: AgentState where
  "busy_state =
     \<lparr>openFiles = [sample_entry 1], recentChanges = [(''src/f1.ts'', 3000)],
      recentReads = [(''README.md'', 1000), (''docs/guide.md'', 2000)],
      recentCommands = [\<lparr>ranCommand = ''npm test'', commandOutput = None, ranAt = 4000\<rparr>],
      toolUses = Some [(''toolu_26'', ReadFile ''src/f2.ts'')], textBlocks = [],
      workingSet = [], historicalSummaries = [], iterationCount = Some 25\<rparr>"

section \<open>Approval gateway: properties\<close>

lemma deliver_absent: "pendingCommands g tid = None \<Longrightarrow> deliver g tid s = (False, g)"
  by (cases s) (simp_all add: resolvePendingCommand_def rejectPendingCommand_def)

lemma deliver_present:
  "pendingCommands g tid = Some a \<Longrightarrow>
   deliver g tid s =
     (True, g\<lparr>pendingCommands := (pendingCommands g)(tid := None),
              deliveries := deliveries g @ [(tid, delivered s)]\<rparr>)"
  by (cases s) (simp_all add: resolvePendingCommand_def rejectPendingCommand_def)

text \<open>
  Claim C8. For a pending approval id, the first resolve or reject removes the entry,
  calls the promise handle once and returns true; a second resolve or reject for the
  same id returns false and changes nothing (no further delivery, no exception);
  registering the id again while it is pending throws.
\<close>

theorem pending_command_settled_once:
  assumes "pendingCommands g tid = Some a"
  shows "fst (deliver g tid s1) = True
       \<and> pendingCommands (snd (deliver g tid s1)) tid = None
       \<and> deliveries (snd (deliver g tid s1)) = deliveries g @ [(tid, delivered s1)]
       \<and> deliver (snd (deliver g tid s1)) tid s2 = (False, snd (deliver g tid s1))
       \<and> isl (waitForCommandCompletion g tid a')"
proof -
  let ?g' = "snd (deliver g tid s1)"
  have first: "deliver g tid s1 =
      (True, g\<lparr>pendingCommands := (pendingCommands g)(tid := None),
               deliveries := deliveries g @ [(tid, delivered s1)]\<rparr>)"
    using assms by (rule deliver_present)
  have gone: "pendingCommands ?g' tid = None"
    by (simp add: first)
  have second: "deliver ?g' tid s2 = (False, ?g')"
    using gone by (rule deliver_absent)
  have reg: "isl (waitForCommandCompletion g tid a')"
    using assms by (simp add: waitForCommandCompletion_def)
  show ?thesis
    using first gone second reg by simp
qed

theorem pending_command_settled_once_witness:
  "(case waitForCommandCompletion emptyGateway ''toolu_1''
           \<lparr>command = ''ls'', cwd = None, timeout = None\<rparr> of
      Inl e \<Rightarrow> False
    | Inr g \<Rightarrow>
        pendingCommands g ''toolu_1'' = Some \<lparr>command = ''ls'', cwd = None, timeout = None\<rparr>
      \<and> fst (deliver g ''toolu_1'' (Reject ''Command not approved by user'')) = True
      \<and> deliver (snd (deliver g ''toolu_1'' (Reject ''Command not approved by user'')))
            ''toolu_1'' (Resolve \<lparr>stdout = ''ok'', stderr = [], exitCode = 0\<rparr>)
          = (False, snd (deliver g ''toolu_1'' (Reject ''Command not approved by user'')))
      \<and> isl (waitForCommandCompletion g ''toolu_1''
            \<lparr>command = ''pwd'', cwd = None, timeout = None\<rparr>))"
proof -
  let ?a = "\<lparr>command = ''ls'', cwd = None, timeout = None\<rparr>"
  let ?g = "emptyGateway\<lparr>pendingCommands := (pendingCommands emptyGateway)(''toolu_1'' \<mapsto> ?a)\<rparr>"
  have reg: "waitForCommandCompletion emptyGateway ''toolu_1'' ?a = Inr ?g"
    by (simp add: waitForCommandCompletion_def emptyGateway_def)
  have pend: "pendingCommands ?g ''toolu_1'' = Some ?a"
    by simp
  show ?thesis
    using pending_command_settled_once [OF pend,
        of "Reject ''Command not approved by user''"
           "Resolve \<lparr>stdout = ''ok'', stderr = [], exitCode = 0\<rparr>"
           "\<lparr>command = ''pwd'', cwd = None, timeout = None\<rparr>"]
    by (simp only: reg sum.case pend simp_thms)
qed

section \<open>Pruning: properties\<close>

lemma tool_use_not_result: "is_tool_use b \<Longrightarrow> \<not> is_tool_result b"
  by (cases b) simp_all

lemma hasToolUses_strip: "hasToolUses (strip_tool_results m) = hasToolUses m"
  by (cases "content m")
     (auto simp: hasToolUses_def strip_tool_results_def list_ex_iff dest: tool_use_not_result)

lemma hasToolResults_strip: "\<not> hasToolResults (strip_tool_results m)"
  by (cases "content m") (auto simp: hasToolResults_def strip_tool_results_def list_ex_iff)

lemma adjacent_uses_nth:
  "adjacent_uses ms \<longleftrightarrow>
     (\<forall>j. Suc j < length ms \<longrightarrow> hasToolResults (ms ! Suc j) \<longrightarrow> hasToolUses (ms ! j))"
proof (induction ms rule: adjacent_uses.induct)
  case (1 p m ms)
  show ?case
  proof
    assume a: "adjacent_uses (p # m # ms)"
    show "\<forall>j. Suc j < length (p # m # ms) \<longrightarrow> hasToolResults ((p # m # ms) ! Suc j) \<longrightarrow> hasToolUses ((p # m # ms) ! j)"
    proof (intro allI impI)
      fix j assume "Suc j < length (p # m # ms)" "hasToolResults ((p # m # ms) ! Suc j)"
      then show "hasToolUses ((p # m # ms) ! j)"
        using a 1 by (cases j) auto
    qed
  next
    assume r: "\<forall>j. Suc j < length (p # m # ms) \<longrightarrow> hasToolResults ((p # m # ms) ! Suc j) \<longrightarrow> hasToolUses ((p # m # ms) ! j)"
    have h0: "hasToolResults m \<longrightarrow> hasToolUses p" using r [rule_format, of 0] by simp
    have "\<forall>j. Suc j < length (m # ms) \<longrightarrow> hasToolResults ((m # ms) ! Suc j) \<longrightarrow> hasToolUses ((m # ms) ! j)"
      using r [rule_format, of "Suc j" for j] by simp
    then show "adjacent_uses (p # m # ms)" using h0 1 by simp
  qed
qed simp_all

lemma adjacent_uses_drop: "adjacent_uses ms \<Longrightarrow> adjacent_uses (drop n ms)"
  unfolding adjacent_uses_nth by (auto simp: add.commute)

lemma adjacent_uses_slice: "adjacent_uses ms \<Longrightarrow> adjacent_uses (js_slice_from k ms)"
  by (simp add: js_slice_from_def adjacent_uses_drop)

lemma ok_upto_strip:
  assumes "ok_upto h pruned i"
  shows "ok_upto (h(a := strip_tool_results (h a))) pruned i"
  using assms unfolding ok_upto_def
  by (auto simp: hasToolUses_strip hasToolResults_strip)

lemma ok_upto_splice:
  assumes "ok_upto h pruned i" 
  shows "ok_upto h (take i pruned @ drop (Suc i) pruned) i"
  using assms unfolding ok_upto_def
  by (auto simp: nth_append)

lemma ok_upto_Suc:
  assumes "ok_upto h pruned i" "1 \<le> i"
    "hasToolResults (h (pruned ! i)) \<longrightarrow> hasToolUses (h (pruned ! (i - 1)))"
  shows "ok_upto h pruned (Suc i)"
  unfolding ok_upto_def
proof (intro allI impI)
  fix j assume j: "Suc j < Suc i" "Suc j < length pruned" "hasToolResults (h (pruned ! Suc j))"
  show "hasToolUses (h (pruned ! j))"
  proof (cases "Suc j = i")
    case True then show ?thesis using assms(3) j by auto
  next
    case False then have "Suc j < i" using j by simp
    then show ?thesis using assms(1) j unfolding ok_upto_def by blast
  qed
qed

lemma repair_ok:
  "1 \<le> i \<Longrightarrow> ok_upto h pruned i \<Longrightarrow> repair h pruned i = (R, H) \<Longrightarrow> ok_upto H R (length R)"
proof (induction h pruned i rule: repair.induct)
  case (1 h pruned i)
  show ?case
  proof (cases "i < length pruned")
    case False
    then have "R = pruned" "H = h" using "1.prems"(3) by (simp_all add: repair.simps)
    moreover have "ok_upto h pruned (length pruned)"
      using "1.prems"(2) False unfolding ok_upto_def by auto
    ultimately show ?thesis by simp
  next
    case True
    let ?msg = "pruned ! i" and ?prev = "pruned ! (i - 1)"
    show ?thesis
    proof (cases "hasToolResults (h ?msg) \<and> \<not> hasToolUses (h ?prev)")
      case False
      then have eq: "repair h pruned i = repair h pruned (Suc i)"
        using True by (subst repair.simps) (auto simp: Let_def)
      have "ok_upto h pruned (Suc i)"
        using "1.prems" False by (intro ok_upto_Suc) auto
      then show ?thesis
        using "1.IH"(3) [OF True refl refl] False eq "1.prems" by simp
    next
      case orphan: True
      let ?h' = "h(?msg := strip_tool_results (h ?msg))"
      have ok': "ok_upto ?h' pruned i" using "1.prems"(2) by (rule ok_upto_strip)
      show ?thesis
      proof (cases "content_empty (?h' ?msg)")
        case True
        have eq: "repair h pruned i = repair ?h' (take i pruned @ drop (Suc i) pruned) i"
          using \<open>i < length pruned\<close> orphan True by (subst repair.simps) (simp add: Let_def)
        have "ok_upto ?h' (take i pruned @ drop (Suc i) pruned) i"
          using ok' by (rule ok_upto_splice)
        then show ?thesis
          using "1.IH"(1) [OF \<open>i < length pruned\<close> refl refl orphan refl True] eq "1.prems"
          by (simp add: fun_upd_def)
      next
        case False
        have eq: "repair h pruned i = repair ?h' pruned (Suc i)"
          using \<open>i < length pruned\<close> orphan False by (subst repair.simps) (simp add: Let_def)
        have "ok_upto ?h' pruned (Suc i)"
          using ok' "1.prems"(1) by (intro ok_upto_Suc) (auto simp: hasToolResults_strip)
        then show ?thesis
          using "1.IH"(2) [OF \<open>i < length pruned\<close> refl refl orphan refl False] eq "1.prems"
          by (simp add: fun_upd_def)
      qed
    qed
  qed
qed

lemma repair_adjacent:
  assumes "repair h pruned 1 = (R, H)"
  shows "adjacent_uses (map H R)"
proof -
  have "ok_upto h pruned 1" unfolding ok_upto_def by simp
  then have "ok_upto H R (length R)" using assms repair_ok by blast
  then show ?thesis unfolding adjacent_uses_nth ok_upto_def by simp
qed

lemma map_js_slice_from: "map f (js_slice_from k xs) = js_slice_from k (map f xs)"
  by (simp add: js_slice_from_def drop_map)

lemma pruneMessages_unfold:
  assumes ne: "messages \<noteq> []"
    and fits: "\<not> estimateTokensFromMessage (h (messages ! 0)) > maxTokens"
    and sel: "selected = scan h messages maxMessages maxTokens (length messages - 1) []
                      (estimateTokensFromMessage (h (messages ! 0)))"
    and pre: "pre = (if int (length (messages ! 0 # rev selected)) > maxMessages
                   then js_slice_from (- maxMessages) (messages ! 0 # rev selected)
                   else messages ! 0 # rev selected)"
    and rep: "repair h pre 1 = (R, H)"
  shows "pruneMessages h messages maxMessages maxTokens =
           \<lparr>prunedMessages = (if int (length R) > maxMessages
                               then js_slice_from (- maxMessages) R else R),
            storeAfter = H\<rparr>"
proof -
  have "pruneMessages h messages maxMessages maxTokens =
          (case repair h pre 1 of (pruned, h') \<Rightarrow>
             if int (length pruned) > maxMessages
             then \<lparr>prunedMessages = js_slice_from (- maxMessages) pruned, storeAfter = h'\<rparr>
             else \<lparr>prunedMessages = pruned, storeAfter = h'\<rparr>)"
    unfolding pruneMessages_def Let_def pre sel using ne fits by simp
  then show ?thesis using rep by simp
qed

lemma scan_prefix: "prefix selected (scan h messages maxMessages maxTokens i selected usedTokens)"
proof (induction i arbitrary: selected usedTokens rule: less_induct)
  case (less i)
  have IH: "prefix sel (scan h messages maxMessages maxTokens j sel u)" if "j < i" for j sel u
    using less that by blast
  have IH1: "prefix selected (scan h messages maxMessages maxTokens j (selected @ x) u)"
    if "j < i" for j x u
    using IH [OF that] append_prefixD by blast
  show ?case
    by (subst scan.simps) (auto simp: Let_def IH IH1)
qed

lemma scan_keeps_pair:
  assumes "2 \<le> i" "hasToolResults (h (messages ! i))"
  shows "messages ! i \<in> set (scan h messages maxMessages maxTokens i selected usedTokens)
       \<and> messages ! (i - 1) \<in> set (scan h messages maxMessages maxTokens i selected usedTokens)"
proof -
  let ?msg = "messages ! i" and ?prev = "messages ! (i - 1)"
  let ?tokens = "estimateTokensFromMessage (h ?msg)"
  show ?thesis
  proof (cases "?prev \<in> set (selected @ [?msg])")
    case True
    have eq: "scan h messages maxMessages maxTokens i selected usedTokens =
              scan h messages maxMessages maxTokens (i - 1) (selected @ [?msg]) (usedTokens + ?tokens)"
      using assms True by (subst scan.simps) (simp add: Let_def)
    have "set (selected @ [?msg]) \<subseteq> set (scan h messages maxMessages maxTokens (i - 1) (selected @ [?msg]) (usedTokens + ?tokens))"
      using scan_prefix by (rule set_mono_prefix)
    then show ?thesis using True eq by auto
  next
    case False
    have eq: "scan h messages maxMessages maxTokens i selected usedTokens =
              scan h messages maxMessages maxTokens (i - 2) (selected @ [?msg, ?prev])
                (usedTokens + ?tokens + estimateTokensFromMessage (h ?prev))"
      using assms False by (subst scan.simps) (simp add: Let_def)
    have "set (selected @ [?msg, ?prev]) \<subseteq> set (scan h messages maxMessages maxTokens (i - 2) (selected @ [?msg, ?prev])
                (usedTokens + ?tokens + estimateTokensFromMessage (h ?prev)))"
      using scan_prefix by (rule set_mono_prefix)
    then show ?thesis using eq by auto
  qed
qed

lemma length_js_slice_from: "1 \<le> n \<Longrightarrow> int (length (js_slice_from (- n) xs)) \<le> n"
  by (auto simp: js_slice_from_def)

lemma pruneMessages_length:
  assumes "1 \<le> maxMessages"
  shows "int (length (prunedMessages (pruneMessages h messages maxMessages maxTokens))) \<le> maxMessages"
proof (cases "messages = [] \<or> estimateTokensFromMessage (h (messages ! 0)) > maxTokens")
  case True
  then show ?thesis using assms
    by (auto simp: pruneMessages_def Let_def)
next
  case False
  define selected where "selected = scan h messages maxMessages maxTokens (length messages - 1) []
                      (estimateTokensFromMessage (h (messages ! 0)))"
  define pre where "pre = (if int (length (messages ! 0 # rev selected)) > maxMessages
                   then js_slice_from (- maxMessages) (messages ! 0 # rev selected)
                   else messages ! 0 # rev selected)"
  obtain R H where rep: "repair h pre 1 = (R, H)"
    by (cases "repair h pre 1") blast
  show ?thesis
    using False pruneMessages_unfold [OF _ _ selected_def pre_def rep] length_js_slice_from [OF assms, of R]
    by auto
qed

text \<open>
  What the repair pass establishes for every history: a retained message that holds a
  tool-result block and has a predecessor in the retained list is preceded by a message
  that holds some tool-use block. The first retained message is outside the pass.
\<close>

lemma pruned_results_follow_tool_uses:
  "adjacent_uses (retained (pruneMessages h messages maxMessages maxTokens))"
proof (cases "messages = [] \<or> estimateTokensFromMessage (h (messages ! 0)) > maxTokens")
  case True
  then show ?thesis
    by (auto simp: pruneMessages_def retained_def Let_def)
next
  case False
  define selected where "selected = scan h messages maxMessages maxTokens (length messages - 1) []
                      (estimateTokensFromMessage (h (messages ! 0)))"
  define pre where "pre = (if int (length (messages ! 0 # rev selected)) > maxMessages
                   then js_slice_from (- maxMessages) (messages ! 0 # rev selected)
                   else messages ! 0 # rev selected)"
  obtain R H where rep: "repair h pre 1 = (R, H)"
    by (cases "repair h pre 1") blast
  have adj: "adjacent_uses (map H R)" using rep by (rule repair_adjacent)
  have "adjacent_uses (js_slice_from (- maxMessages) (map H R))"
    using adj by (rule adjacent_uses_slice)
  then have "adjacent_uses (map H (js_slice_from (- maxMessages) R))"
    by (simp only: map_js_slice_from)
  then show ?thesis
    using False adj pruneMessages_unfold [OF _ _ selected_def pre_def rep]
    by (simp add: retained_def)
qed







text \<open>
  Claim C1, at the failing input: the history of 25 tool rounds satisfies the adjacency,
  and pruned with the ceiling 49 (the pass before the new assistant turn is appended) it
  comes back starting with the tool-result message of the first round, whose tool-use
  message the trim to the ceiling has cut off.
\<close>

theorem orphaned_result_after_trim:
  "spec_adjacency None (map tool_rounds [0..<51])
   \<and> prunedMessages (pruneMessages tool_rounds [0..<51] 49 180000) = [2..<51]
   \<and> toolResultIds (hd (retained (pruneMessages tool_rounds [0..<51] 49 180000))) = [''toolu_1'']
   \<and> \<not> spec_adjacency None (retained (pruneMessages tool_rounds [0..<51] 49 180000))"
  by code_simp

text \<open>
  Claim C2, at the failing input: after 25 tool rounds (51 messages) the default ceiling
  50 leaves the seeded request out of the pruned history, although it is far below the
  token budget.
\<close>

theorem first_message_dropped_after_25_rounds:
  "estimateTokensFromMessage (tool_rounds 0) = 11
   \<and> prunedMessages (pruneMessages tool_rounds [0..<51] 50 180000) = [1..<51]
   \<and> 0 \<notin> set (prunedMessages (pruneMessages tool_rounds [0..<51] 50 180000))"
  by code_simp




text \<open>
  Claim C4. For a non-empty history and a ceiling of at least 1, the list returned by
  \<open>pruneMessages\<close> is at most as long as the ceiling.
\<close>

theorem pruned_length_within_ceiling:
  assumes "messages \<noteq> []" and "1 \<le> maxMessages"
  shows "int (length (prunedMessages (pruneMessages h messages maxMessages maxTokens)))
           \<le> maxMessages"
  using assms(2) by (rule pruneMessages_length)

theorem pruned_length_within_ceiling_witness:
  "[0..<51::nat] \<noteq> [] \<and> (1::int) \<le> 49
   \<and> int (length (prunedMessages (pruneMessages tool_rounds [0..<51] 49 180000))) \<le> 49"
proof -
  have a: "[0..<51::nat] \<noteq> []" by simp
  have b: "(1::int) \<le> 49" by simp
  show ?thesis
    using pruned_length_within_ceiling [OF a b, of tool_rounds 180000] by simp
qed

section \<open>Open-file cache: properties\<close>

lemma evictionOrder_take:
  "evictionOrder c maxSize = take (length c - maxSize) (sort_key (\<lambda>e. lastRead (snd e)) c)"
  by (auto simp: evictionOrder_def Let_def list_eq_iff_nth_eq)

lemma fold_delete_filter:
  "fold (\<lambda>e c'. AList.delete (fst e) c') es c = filter (\<lambda>x. fst x \<notin> fst ` set es) c"
proof (induction es arbitrary: c)
  case Nil
  then show ?case by simp
next
  case (Cons e es)
  have "AList.delete (fst e) c = filter (\<lambda>x. fst x \<noteq> fst e) c"
    by (induction c) auto
  then show ?case
    using Cons by (auto intro: filter_cong)
qed

lemma filter_take_distinct:
  assumes "distinct (map fst xs)"
  shows "filter (\<lambda>x. fst x \<notin> fst ` set (take k xs)) xs = drop k xs"
proof -
  have d: "distinct (map fst (take k xs) @ map fst (drop k xs))"
    using assms by (simp flip: map_append)
  have 1: "filter (\<lambda>x. fst x \<notin> fst ` set (take k xs)) (take k xs) = []"
    by (auto simp: filter_empty_conv)
  have 2: "filter (\<lambda>x. fst x \<notin> fst ` set (take k xs)) (drop k xs) = drop k xs"
    using d by (auto simp: filter_id_conv)
  have "filter (\<lambda>x. fst x \<notin> fst ` set (take k xs)) (take k xs @ drop k xs) = drop k xs"
    unfolding filter_append 1 2 by simp
  then show ?thesis by simp
qed

lemma evict_mset:
  assumes "distinct (map fst c)"
  shows "mset (evictOldCacheEntries c maxSize) =
         mset (drop (length c - maxSize) (sort_key (\<lambda>e. lastRead (snd e)) c))"
proof (cases "length c \<le> maxSize")
  case True
  then show ?thesis by (simp add: evictOldCacheEntries_def)
next
  case False
  let ?s = "sort_key (\<lambda>e. lastRead (snd e)) c"
  let ?k = "length c - maxSize"
  let ?P = "\<lambda>x. fst x \<notin> fst ` set (take ?k ?s)"
  have ds: "distinct (map fst ?s)"
  proof -
    have "mset (map fst ?s) = mset (map fst c)" by simp
    then show ?thesis using assms by (metis mset_eq_imp_distinct_iff)
  qed
  have "evictOldCacheEntries c maxSize = filter ?P c"
    using False by (simp add: evictOldCacheEntries_def evictionOrder_take fold_delete_filter)
  then have "mset (evictOldCacheEntries c maxSize) = filter_mset ?P (mset c)" by simp
  also have "\<dots> = filter_mset ?P (mset ?s)" by simp
  also have "\<dots> = mset (filter ?P ?s)" by simp
  also have "\<dots> = mset (drop ?k ?s)" using filter_take_distinct [OF ds] by simp
  finally show ?thesis .
qed

lemma evict_length:
  assumes "distinct (map fst c)"
  shows "length (evictOldCacheEntries c maxSize) = min (length c) maxSize"
proof -
  have "length (evictOldCacheEntries c maxSize) = size (mset (evictOldCacheEntries c maxSize))" by simp
  also have "\<dots> = length (drop (length c - maxSize) (sort_key (\<lambda>e. lastRead (snd e)) c))"
    unfolding evict_mset [OF assms] by simp
  finally show ?thesis by auto
qed

lemma evict_partition:
  assumes "distinct (map fst c)"
  shows "mset c = mset (evictionOrder c maxSize) + mset (evictOldCacheEntries c maxSize)"
proof -
  let ?s = "sort_key (\<lambda>e. lastRead (snd e)) c"
  have "mset c = mset (take (length c - maxSize) ?s @ drop (length c - maxSize) ?s)"
    by simp
  then show ?thesis
    unfolding evict_mset [OF assms] evictionOrder_take by (simp only: mset_append)
qed

lemma evictionOrder_sorted: "sorted (map (\<lambda>e. lastRead (snd e)) (evictionOrder c maxSize))"
  unfolding evictionOrder_take take_map [symmetric] by (rule sorted_wrt_take) (rule sorted_sort_key)

lemma evicted_older:
  assumes "distinct (map fst c)"
    and "r \<in> set (evictionOrder c maxSize)" and "k \<in> set (evictOldCacheEntries c maxSize)"
  shows "lastRead (snd r) \<le> lastRead (snd k)"
proof -
  let ?s = "sort_key (\<lambda>e. lastRead (snd e)) c"
  let ?n = "length c - maxSize"
  have "set (evictOldCacheEntries c maxSize) = set (drop ?n ?s)"
    using evict_mset [OF assms(1)] by (metis set_mset_mset)
  then have k: "k \<in> set (drop ?n ?s)" using assms(3) by simp
  have r: "r \<in> set (take ?n ?s)" using assms(2) by (simp add: evictionOrder_take)
  have "sorted (map (\<lambda>e. lastRead (snd e)) (take ?n ?s @ drop ?n ?s))" by simp
  then show ?thesis
    unfolding map_append sorted_append using k r by auto
qed

lemma distinct_update_keys: "distinct (map fst c) \<Longrightarrow> distinct (map fst (AList.update k v c))"
  by (rule AList.distinct_update)

lemma trackTool_bounded:
  assumes "distinct (map fst (openFiles t))"
    and "updates_cache call outcome \<or> length (openFiles t) \<le> 15"
  shows "length (openFiles (trackTool now call outcome t)) \<le> 15"
proof (cases outcome)
  case (Threw err)
  then show ?thesis using assms by (simp add: updates_cache_def split: tool_call.splits)
next
  case (Returned v)
  show ?thesis
  proof (cases call)
    case (ReadFile p)
    then show ?thesis
      using assms Returned
      by (cases v) (simp_all add: updates_cache_def Let_def evict_length distinct_update_keys)
  next
    case (WriteFile p w)
    then show ?thesis
      using assms Returned
      by (simp add: Let_def evict_length distinct_update_keys split: option.splits)
  next
    case (ExecuteCommand c)
    then show ?thesis using assms Returned
      by (simp add: updates_cache_def trackCommand_def Let_def)
  next
    case (ExecuteServerCommand c)
    then show ?thesis using assms Returned
      by (simp add: updates_cache_def trackCommand_def Let_def)
  next
    case (OtherTool nm)
    then show ?thesis using assms Returned by (simp add: updates_cache_def)
  qed
qed

lemma evict_distinct:
  "distinct (map fst c) \<Longrightarrow> distinct (map fst (evictOldCacheEntries c maxSize))"
  by (auto simp: evictOldCacheEntries_def fold_delete_filter distinct_map_filter)

lemma trackTool_distinct:
  assumes "distinct (map fst (openFiles t))"
  shows "distinct (map fst (openFiles (trackTool now call outcome t)))"
proof (cases outcome)
  case (Threw err)
  then show ?thesis using assms by simp
next
  case (Returned v)
  show ?thesis
  proof (cases call)
    case (ReadFile p)
    then show ?thesis
      using assms Returned
      by (cases v) (simp_all add: Let_def evict_distinct distinct_update_keys)
  next
    case (WriteFile p w)
    then show ?thesis
      using assms Returned
      by (simp add: Let_def evict_distinct distinct_update_keys split: option.splits)
  next
    case (ExecuteCommand c)
    then show ?thesis using assms Returned by (simp add: trackCommand_def Let_def)
  next
    case (ExecuteServerCommand c)
    then show ?thesis using assms Returned by (simp add: trackCommand_def Let_def)
  next
    case (OtherTool nm)
    then show ?thesis using assms Returned by simp
  qed
qed

text \<open>
  Claim C5. The cache is a map, so its keys are distinct, and every tool execution keeps
  them so. A read that returned a string and a write that returned store an entry and
  run the eviction, after which the cache holds at most 15 entries; any other tool
  execution leaves a cache of at most 15 entries as it is. The eviction deletes the
  first \<open>size - maxSize\<close> entries of the cache sorted by ascending \<open>lastRead\<close>, in that
  order, so what it deletes and what it keeps partition the cache, and no deleted entry
  has a later \<open>lastRead\<close> than a kept one.
\<close>

theorem cache_bounded_evicts_oldest_first:
  assumes "distinct (map fst (openFiles t))" and "distinct (map fst c)"
  shows "(updates_cache call outcome \<or> length (openFiles t) \<le> 15 \<longrightarrow>
            length (openFiles (trackTool now call outcome t)) \<le> 15)
       \<and> distinct (map fst (openFiles (trackTool now call outcome t)))
       \<and> length (evictOldCacheEntries c maxSize) = min (length c) maxSize
       \<and> mset c = mset (evictionOrder c maxSize) + mset (evictOldCacheEntries c maxSize)
       \<and> sorted (map (\<lambda>e. lastRead (snd e)) (evictionOrder c maxSize))
       \<and> (\<forall>r \<in> set (evictionOrder c maxSize). \<forall>k \<in> set (evictOldCacheEntries c maxSize).
             lastRead (snd r) \<le> lastRead (snd k))"
proof -
  have "updates_cache call outcome \<or> length (openFiles t) \<le> 15 \<longrightarrow>
            length (openFiles (trackTool now call outcome t)) \<le> 15"
    using assms(1) trackTool_bounded by blast
  moreover have "distinct (map fst (openFiles (trackTool now call outcome t)))"
    using assms(1) by (rule trackTool_distinct)
  moreover have "length (evictOldCacheEntries c maxSize) = min (length c) maxSize"
    using assms(2) by (rule evict_length)
  moreover have "mset c = mset (evictionOrder c maxSize) + mset (evictOldCacheEntries c maxSize)"
    using assms(2) by (rule evict_partition)
  moreover have "sorted (map (\<lambda>e. lastRead (snd e)) (evictionOrder c maxSize))"
    by (rule evictionOrder_sorted)
  moreover have "\<forall>r \<in> set (evictionOrder c maxSize). \<forall>k \<in> set (evictOldCacheEntries c maxSize).
             lastRead (snd r) \<le> lastRead (snd k)"
    using evicted_older [OF assms(2)] by blast
  ultimately show ?thesis by simp
qed

theorem cache_bounded_evicts_oldest_first_witness:
  "distinct (map fst (openFiles sample_tracking))
   \<and> length (openFiles sample_tracking) = 15
   \<and> updates_cache (ReadFile ''README.md'') (Returned (VString ''# readme''))
   \<and> map fst (evictionOrder
         (openFiles sample_tracking @
            [(''README.md'', \<lparr>path = ''README.md'', fileContent = Some ''# readme'',
                previousVersions = Some [], lastRead = 5000, lastModified = 5000\<rparr>)]) 15)
       = [''src/f7.ts'']
   \<and> map fst (openFiles (trackTool 5000 (ReadFile ''README.md'') (Returned (VString ''# readme''))
         sample_tracking))
       = map (\<lambda>i. fst (sample_entry i)) ([1..<7] @ [8..<16]) @ [''README.md'']
   \<and> length (openFiles (trackTool 5000 (ReadFile ''README.md'') (Returned (VString ''# readme''))
         sample_tracking)) \<le> 15"
proof -
  have d: "distinct (map fst (openFiles sample_tracking))"
    by code_simp
  have l: "length (openFiles sample_tracking) = 15"
    by code_simp
  have u: "updates_cache (ReadFile ''README.md'') (Returned (VString ''# readme''))"
    by code_simp
  have o: "map fst (evictionOrder
         (openFiles sample_tracking @
            [(''README.md'', \<lparr>path = ''README.md'', fileContent = Some ''# readme'',
                previousVersions = Some [], lastRead = 5000, lastModified = 5000\<rparr>)]) 15)
       = [''src/f7.ts'']"
    by code_simp
  have r: "map fst (openFiles (trackTool 5000 (ReadFile ''README.md'') (Returned (VString ''# readme''))
         sample_tracking))
       = map (\<lambda>i. fst (sample_entry i)) ([1..<7] @ [8..<16]) @ [''README.md'']"
    by code_simp
  show ?thesis
    using cache_bounded_evicts_oldest_first
      [OF d d, where maxSize = 15 and call = "ReadFile ''README.md''"
         and outcome = "Returned (VString ''# readme'')" and now = 5000]
      d l u o r
    by simp
qed

lemma insort_key_snoc_max:
  "f y \<le> f x \<Longrightarrow> insort_key f y (zs @ [x]) = insort_key f y zs @ [x]"
  by (induction zs) auto

lemma foldr_insort_snoc_max:
  "\<forall>y \<in> set xs. f y \<le> f x \<Longrightarrow>
   foldr (insort_key f) xs [x] = foldr (insort_key f) xs [] @ [x]"
  by (induction xs) (auto simp: insort_key_snoc_max)

lemma sort_key_snoc_max:
  "\<forall>y \<in> set xs. f y \<le> f x \<Longrightarrow> sort_key f (xs @ [x]) = sort_key f xs @ [x]"
  by (simp add: sort_key_def foldr_insort_snoc_max)

lemma update_absent: "map_of c k = None \<Longrightarrow> AList.update k v c = c @ [(k, v)]"
  by (induction c) (auto split: if_splits)

lemma map_of_filter_keys:
  "k \<notin> K \<Longrightarrow> map_of (filter (\<lambda>x. fst x \<notin> K) c) k = map_of c k"
  by (induction c) auto

lemma evict_keeps_newest:
  assumes absent: "map_of c p = None"
    and newest: "\<forall>x \<in> set c. lastRead (snd x) \<le> lastRead e"
    and room: "1 \<le> maxSize"
  shows "map_of (evictOldCacheEntries (c @ [(p, e)]) maxSize) p = Some e"
proof (cases "length (c @ [(p, e)]) \<le> maxSize")
  case True
  then show ?thesis using absent by (simp add: evictOldCacheEntries_def map_add_def)
next
  case False
  let ?c' = "c @ [(p, e)]"
  let ?k = "length ?c' - maxSize"
  let ?s = "sort_key (\<lambda>x. lastRead (snd x)) c"
  have s: "sort_key (\<lambda>x. lastRead (snd x)) ?c' = ?s @ [(p, e)]"
    using newest by (intro sort_key_snoc_max) simp
  have "?k \<le> length ?s" using room by simp
  then have t: "take ?k (?s @ [(p, e)]) = take ?k ?s" by simp
  have "set (take ?k ?s) \<subseteq> set c"
    using set_take_subset [of ?k ?s] by simp
  moreover have "p \<notin> fst ` set c" using absent by (simp add: map_of_eq_None_iff)
  ultimately have notin: "p \<notin> fst ` set (take ?k ?s)" by blast
  have "evictOldCacheEntries ?c' maxSize = filter (\<lambda>x. fst x \<notin> fst ` set (take ?k ?s)) ?c'"
    using False unfolding evictOldCacheEntries_def evictionOrder_take fold_delete_filter s t
    by simp
  moreover have "map_of (filter (\<lambda>x. fst x \<notin> fst ` set (take ?k ?s)) ?c') p = map_of ?c' p"
    using notin by (rule map_of_filter_keys)
  ultimately have "map_of (evictOldCacheEntries ?c' maxSize) p = map_of ?c' p"
    by (simp only:)
  then show ?thesis using absent by (simp add: map_add_def)
qed

lemma evict_id: "length c \<le> maxSize \<Longrightarrow> evictOldCacheEntries c maxSize = c"
  by (simp add: evictOldCacheEntries_def)

lemma length_update_present:
  "map_of c k = Some e \<Longrightarrow> length (AList.update k v c) = length c"
  by (induction c) (auto split: if_splits)

lemma map_of_update_same: "map_of (AList.update k v c) k = Some v"
  by (simp add: AList.update_conv')

text \<open>First write of a path that has no entry.\<close>

lemma first_write:
  assumes keys: "distinct (map fst (openFiles t))"
    and absent: "map_of (openFiles t) p = None"
    and clock: "\<forall>x \<in> set (openFiles t). lastRead (snd x) \<le> now"
    and t1: "t1 = trackTool now (WriteFile p w) (Returned v) t"
  shows "map_of (openFiles t1) p =
           Some \<lparr>path = p, fileContent = Some w, previousVersions = Some [],
                 lastRead = now, lastModified = now\<rparr>"
    and "distinct (map fst (openFiles t1))"
    and "length (openFiles t1) \<le> 15"
proof -
  let ?e = "\<lparr>path = p, fileContent = Some w, previousVersions = Some [],
                 lastRead = now, lastModified = now\<rparr>"
  have files: "openFiles t1 = evictOldCacheEntries (openFiles t @ [(p, ?e)]) 15"
    using absent unfolding t1 by (simp add: Let_def update_absent)
  have "map_of (evictOldCacheEntries (openFiles t @ [(p, ?e)]) 15) p = Some ?e"
    using absent clock by (intro evict_keeps_newest) simp_all
  then show "map_of (openFiles t1) p = Some ?e" by (simp only: files)
  have d: "distinct (map fst (openFiles t @ [(p, ?e)]))"
    using keys absent by (simp add: map_of_eq_None_iff)
  show "distinct (map fst (openFiles t1))"
    unfolding files using d by (rule evict_distinct)
  show "length (openFiles t1) \<le> 15"
    unfolding files using evict_length [OF d, of 15] by simp
qed

text \<open>A write of a path that has an entry, in a cache within its capacity.\<close>

lemma later_write:
  assumes present: "map_of (openFiles t) p = Some e"
    and size: "length (openFiles t) \<le> 15"
  shows "map_of (openFiles (trackTool now (WriteFile p w) (Returned v) t)) p =
           Some ((saveVersion e)\<lparr>fileContent := Some w, lastModified := now, lastRead := now\<rparr>)"
proof -
  let ?e' = "(saveVersion e)\<lparr>fileContent := Some w, lastModified := now, lastRead := now\<rparr>"
  have "length (AList.update p ?e' (openFiles t)) \<le> 15"
    using size present by (simp add: length_update_present)
  then have "openFiles (trackTool now (WriteFile p w) (Returned v) t) = AList.update p ?e' (openFiles t)"
    using present by (simp add: Let_def evict_id)
  then show ?thesis by (simp add: map_of_update_same)
qed

lemma saveVersion_push:
  assumes "fileContent e = Some c" and "c \<noteq> []" and "length (versions e) \<le> 10"
  shows "saveVersion e =
           e\<lparr>previousVersions := Some (drop (length (versions e @ [c]) - 10) (versions e @ [c]))\<rparr>"
proof (cases "length (versions e) = 10")
  case True
  then have "versions e \<noteq> []" by auto
  then obtain a as where "versions e = a # as" by (cases "versions e") auto
  then show ?thesis using assms True
    by (simp add: saveVersion_def versions_def Let_def split: option.splits)
next
  case False
  then show ?thesis using assms
    by (simp add: saveVersion_def versions_def Let_def split: option.splits)
qed

lemma saveVersion_skip:
  assumes "fileContent e = None \<or> fileContent e = Some []"
  shows "saveVersion e = e"
  using assms by (auto simp: saveVersion_def)

text \<open>
  Claim C6, as amended. In a cache within its capacity, a write on a path whose entry
  holds a non-empty content pushes that content onto the entry's undo stack, keeping the
  last 10 versions, and then overwrites the content; an entry whose content is empty or
  absent keeps its undo stack. A write on a path with no entry creates an entry with an
  empty undo stack, and a second write of that path pushes the first written content,
  provided that content is not empty.
\<close>

theorem write_saves_version_before_overwrite:
  assumes keys: "distinct (map fst (openFiles t))"
    and clock: "\<forall>x \<in> set (openFiles t). lastRead (snd x) \<le> nowa"
    and absent: "map_of (openFiles t) p = None"
    and nonempty: "wa \<noteq> []"
  shows "(let ta = trackTool nowa (WriteFile p wa) (Returned va) t;
              tb = trackTool nowb (WriteFile p wb) (Returned vb) ta
          in map_of (openFiles ta) p =
               Some \<lparr>path = p, fileContent = Some wa, previousVersions = Some [],
                     lastRead = nowa, lastModified = nowa\<rparr>
           \<and> map_of (openFiles tb) p =
               Some \<lparr>path = p, fileContent = Some wb, previousVersions = Some [wa],
                     lastRead = nowb, lastModified = nowb\<rparr>)
       \<and> (\<forall>s e c. map_of (openFiles s) q = Some e \<and> length (openFiles s) \<le> 15
              \<and> fileContent e = Some c \<and> c \<noteq> [] \<and> length (versions e) \<le> 10 \<longrightarrow>
            map_of (openFiles (trackTool now (WriteFile q w) (Returned v) s)) q =
              Some (e\<lparr>previousVersions :=
                         Some (drop (length (versions e @ [c]) - 10) (versions e @ [c])),
                      fileContent := Some w, lastModified := now, lastRead := now\<rparr>))
       \<and> (\<forall>s e. map_of (openFiles s) q = Some e \<and> length (openFiles s) \<le> 15
              \<and> (fileContent e = None \<or> fileContent e = Some []) \<longrightarrow>
            map_of (openFiles (trackTool now (WriteFile q w) (Returned v) s)) q =
              Some (e\<lparr>fileContent := Some w, lastModified := now, lastRead := now\<rparr>))"
proof -
  define t1 where "t1 = trackTool nowa (WriteFile p wa) (Returned va) t"
  define t2 where t2: "t2 = trackTool nowb (WriteFile p wb) (Returned vb) t1"
  let ?e1 = "\<lparr>path = p, fileContent = Some wa, previousVersions = Some [],
                 lastRead = nowa, lastModified = nowa\<rparr>"
  let ?e2 = "\<lparr>path = p, fileContent = Some wb, previousVersions = Some [wa],
                 lastRead = nowb, lastModified = nowb\<rparr>"
  have e1: "map_of (openFiles t1) p = Some ?e1"
    and size1: "length (openFiles t1) \<le> 15"
    using first_write [OF keys absent clock t1_def] by simp_all
  have "saveVersion ?e1 = ?e1\<lparr>previousVersions := Some [wa]\<rparr>"
    using nonempty by (simp add: saveVersion_def)
  then have e2: "map_of (openFiles t2) p = Some ?e2"
    using later_write [OF e1 size1, of nowb wb vb] by (simp add: t2)
  have A: "map_of (openFiles (trackTool now (WriteFile q w) (Returned v) s)) q =
              Some (e\<lparr>previousVersions :=
                         Some (drop (length (versions e @ [c]) - 10) (versions e @ [c])),
                      fileContent := Some w, lastModified := now, lastRead := now\<rparr>)"
    if "map_of (openFiles s) q = Some e" "length (openFiles s) \<le> 15"
       "fileContent e = Some c" "c \<noteq> []" "length (versions e) \<le> 10" for s e c
    using later_write [OF that(1,2), of now w v] saveVersion_push [OF that(3,4,5)] by simp
  have B: "map_of (openFiles (trackTool now (WriteFile q w) (Returned v) s)) q =
              Some (e\<lparr>fileContent := Some w, lastModified := now, lastRead := now\<rparr>)"
    if "map_of (openFiles s) q = Some e" "length (openFiles s) \<le> 15"
       "fileContent e = None \<or> fileContent e = Some []" for s e
    using later_write [OF that(1,2), of now w v] saveVersion_skip [OF that(3)] by simp
  have "map_of (openFiles t1) p = Some ?e1 \<and> map_of (openFiles t2) p = Some ?e2"
    using e1 e2 by simp
  then show ?thesis
    unfolding Let_def t1_def [symmetric] t2 [symmetric]
    using A B by blast
qed

theorem write_saves_version_before_overwrite_witness:
  "distinct (map fst (openFiles sample_tracking))
   \<and> list_all (\<lambda>x. lastRead (snd x) \<le> 5000) (openFiles sample_tracking)
   \<and> map_of (openFiles sample_tracking) ''notes.md'' = None
   \<and> map_option versions (map_of (openFiles
         (trackTool 5000 (WriteFile ''notes.md'' ''first'') (Returned VOther) sample_tracking))
         ''notes.md'') = Some []
   \<and> map_option versions (map_of (openFiles
         (trackTool 6000 (WriteFile ''notes.md'' ''second'') (Returned VOther)
           (trackTool 5000 (WriteFile ''notes.md'' ''first'') (Returned VOther) sample_tracking)))
         ''notes.md'') = Some [''first'']
   \<and> map_option versions (map_of (openFiles
         (trackTool 2000 (WriteFile ''notes.md'' ''v12'') (Returned VOther) full_stack_tracking))
         ''notes.md'') = Some (map (\<lambda>i. ''v'' @ digits i) [2..<12])"
proof -
  have keys: "distinct (map fst (openFiles sample_tracking))"
    by code_simp
  have clock: "\<forall>x \<in> set (openFiles sample_tracking). lastRead (snd x) \<le> 5000"
    by code_simp
  have clock': "list_all (\<lambda>x. lastRead (snd x) \<le> 5000) (openFiles sample_tracking)"
    using clock by (simp add: list_all_iff)
  have absent: "map_of (openFiles sample_tracking) ''notes.md'' = None"
    by code_simp
  have nonempty: "''first'' \<noteq> []"
    by simp
  have full: "map_of (openFiles full_stack_tracking) ''notes.md'' =
      Some \<lparr>path = ''notes.md'', fileContent = Some ''v11'',
          previousVersions = Some (map (\<lambda>i. ''v'' @ digits i) [1..<11]),
          lastRead = 1000, lastModified = 1000\<rparr>"
    by (simp add: full_stack_tracking_def)
  have fullsize: "length (openFiles full_stack_tracking) \<le> 15"
    by (simp add: full_stack_tracking_def)
  have stack: "drop (length (map (\<lambda>i. ''v'' @ digits i) [1..<11] @ [''v11'']) - 10)
                 (map (\<lambda>i. ''v'' @ digits i) [1..<11] @ [''v11''])
               = map (\<lambda>i. ''v'' @ digits i) [2..<12]"
    by code_simp
  note inst = write_saves_version_before_overwrite
      [where t = sample_tracking and nowa = 5000 and p = "''notes.md''" and wa = "''first''"
         and va = VOther and wb = "''second''" and nowb = 6000 and vb = VOther
         and q = "''notes.md''" and now = 2000 and w = "''v12''" and v = VOther,
       OF keys clock absent nonempty, unfolded Let_def]
  from inst have fresh: "map_of (openFiles
           (trackTool 5000 (WriteFile ''notes.md'' ''first'') (Returned VOther) sample_tracking))
         ''notes.md'' =
       Some \<lparr>path = ''notes.md'', fileContent = Some ''first'', previousVersions = Some [],
             lastRead = 5000, lastModified = 5000\<rparr>"
    by blast
  from inst have last_two: "map_of (openFiles
         (trackTool 6000 (WriteFile ''notes.md'' ''second'') (Returned VOther)
           (trackTool 5000 (WriteFile ''notes.md'' ''first'') (Returned VOther) sample_tracking)))
         ''notes.md'' =
       Some \<lparr>path = ''notes.md'', fileContent = Some ''second'', previousVersions = Some [''first''],
             lastRead = 6000, lastModified = 6000\<rparr>"
    by blast
  from inst have push: "\<forall>s e c. map_of (openFiles s) ''notes.md'' = Some e \<and> length (openFiles s) \<le> 15
              \<and> fileContent e = Some c \<and> c \<noteq> [] \<and> length (versions e) \<le> 10 \<longrightarrow>
            map_of (openFiles (trackTool 2000 (WriteFile ''notes.md'' ''v12'') (Returned VOther) s)) ''notes.md'' =
              Some (e\<lparr>previousVersions :=
                         Some (drop (length (versions e @ [c]) - 10) (versions e @ [c])),
                      fileContent := Some ''v12'', lastModified := 2000, lastRead := 2000\<rparr>)"
    by blast
  have pushed: "map_option versions (map_of (openFiles
         (trackTool 2000 (WriteFile ''notes.md'' ''v12'') (Returned VOther) full_stack_tracking))
         ''notes.md'') = Some (map (\<lambda>i. ''v'' @ digits i) [2..<12])"
    using push [rule_format, of full_stack_tracking _ "''v11''"] full fullsize stack
    by (simp add: versions_def)
  show ?thesis
    using keys clock' absent fresh last_two pushed
    by (simp add: versions_def)
qed

text \<open>
  Claim C6, as stated, fails: the entry of an empty file is overwritten without its
  content being pushed.
\<close>

theorem write_push_counterexample:
  "map_of (openFiles empty_file_tracking) ''notes.md'' =
     Some \<lparr>path = ''notes.md'', fileContent = Some [], previousVersions = Some [],
           lastRead = 1000, lastModified = 1000\<rparr>
   \<and> map_of (openFiles (trackTool 2000 (WriteFile ''notes.md'' ''draft'') (Returned VOther)
        empty_file_tracking)) ''notes.md'' =
     Some \<lparr>path = ''notes.md'', fileContent = Some ''draft'', previousVersions = Some [],
           lastRead = 2000, lastModified = 2000\<rparr>"
  by code_simp

section \<open>Undo: properties\<close>

text \<open>
  The map that undo reads comes back from the store empty, so whatever the store holds,
  whichever path is named and whatever the disk answers, undo reports a failure and
  writes nothing.
\<close>

lemma undo_never_restores:
  "\<not> success (result (undoLastChange store filePath writeFile))
   \<and> written (undoLastChange store filePath writeFile) = []"
  by (auto simp: undoLastChange_def getTuple_def deserializeCheckpoint_def failure_def
           split: checkpoint_store.splits option.splits)

text \<open>
  Claim C7, at the failing input: after two writes of a file the cache of the session
  holds its entry with the first content on the undo stack and the change is recorded, so
  the claim has undo pop that content, write it to the disk and make it the cached
  content. With the session saved under the thread \<open>default\<close> undo reports that no
  previous version is available; saved under any other thread id, it reports that there
  is no file history.
\<close>

theorem undo_after_writes_finds_no_version:
  "map_option versions (map_of (openFiles twice_written) ''notes.md'') = Some [''first'']
   \<and> map_option fileContent (map_of (openFiles twice_written) ''notes.md'') = Some (Some ''second'')
   \<and> recentChanges twice_written = [(''notes.md'', 5000), (''notes.md'', 6000)]
   \<and> undoLastChange
        (Store (put Map.empty ''default'' (openFiles twice_written) (recentChanges twice_written)))
        None disk_ok
      = failure ''No previous version available for notes.md'' []
   \<and> undoLastChange
        (Store (put Map.empty ''session-1'' (openFiles twice_written) (recentChanges twice_written)))
        None disk_ok
      = failure ''No file history available'' []"
  by code_simp

section \<open>Continue gate: properties\<close>

text \<open>
  When tool calls are pending and the gate answers "continue" at a count of at least 25,
  the tool pass that follows leaves the counter one higher than it was.
\<close>

lemma gate_continue_increments:
  assumes "toolUses state = Some uses" and "uses \<noteq> []" and "25 \<le> currentCount state"
  shows "map_option iterationCount (toolPassAfterGate now outcome_of state True)
           = Some (Some (currentCount state + 1))"
  using assms
  by (simp add: toolPassAfterGate_def shouldContinue_def executeTools_def Let_def)

text \<open>
  Claim C9, at the failing input: at the count 25 with a tool call pending and the gate
  answering "continue", \<open>shouldContinue\<close> sets the counter of the object it was given to
  0 and returns the route; the tool pass that the route leads to leaves the counter of
  the conversation state at 26, and the next \<open>callLLM\<close>, whose last message is the
  tool-result batch, does not reset it either.
\<close>

theorem gate_continue_leaves_counter_running:
  "currentCount busy_state = 25
   \<and> shouldContinue busy_state True =
        (ContinueRoute, busy_state\<lparr>iterationCount := Some 0\<rparr>, [''ITERATION_LIMIT_REACHED''])
   \<and> map_option iterationCount (toolPassAfterGate 5000 read_ok busy_state True) = Some (Some 26)
   \<and> countAfterCallLLM (Some 26)
        [seed_message, use_message ''toolu_26'',
         toolResultsMessage [(''toolu_26'', ''Contents of src/f2.ts'', None)]] = Some 26"
  by code_simp

section \<open>Context summary: properties\<close>

text \<open>
  Claim C10, at the failing inputs: \<open>getContextSummary\<close> computes the last five recent
  reads and never uses them. A state whose only signal is its recent reads gets the empty
  summary, and a summary that lists files, changes and commands names no read path.
\<close>

theorem context_summary_omits_recent_reads:
  "getContextSummary no_regex 5000 reads_only_state = []
   \<and> getContextSummary no_regex 5000 busy_state =
       ''[Context] Working with files: src/f1.ts. Recent changes: src/f1.ts. Recent commands: Ran: npm test.''"
  by code_simp

text \<open>The summary is the same whatever the recent reads are.\<close>

lemma context_summary_ignores_reads:
  "getContextSummary rx nowMs (state\<lparr>recentReads := reads\<rparr>) = getContextSummary rx nowMs state"
  by (simp add: getContextSummary_def Let_def)

end
